theory Spec2Isabelle
  imports Main "HOL-Library.Multiset" "HOL-Library.Word"
begin

section \<open>The Consul resolver of grpctools (package naming/consul)\<close>

text \<open>
  The development embeds the resolver of \<^verbatim>\<open>naming/consul\<close>: the diff function
  \<^verbatim>\<open>makeUpdates\<close>, the fetch \<^verbatim>\<open>getInstances\<close>, the constructor
  \<^verbatim>\<open>NewConsulResolver\<close>, the consumer operations \<^verbatim>\<open>Next\<close> and \<^verbatim>\<open>Close\<close>, and
  the goroutine \<^verbatim>\<open>backgroundUpdater\<close>. Go's channels and the iteration order of
  Go's maps are part of the language, so they are modelled first.
\<close>

subsection \<open>Go maps used as sets, and the order of \<^verbatim>\<open>range\<close>\<close>

text \<open>
  A \<^verbatim>\<open>map[string]struct{}\<close> is a finite set of keys. It is kept as the list of its
  keys, each once; \<open>map_store\<close> is the assignment \<^verbatim>\<open>m[k] = struct{}{}\<close>, which
  leaves the map as it is when the key is already there.
\<close>

type_synonym addr_map = "string list"

definition map_store :: "addr_map \<Rightarrow> string \<Rightarrow> addr_map" where
  "map_store m k = (if k \<in> set m then m else m @ [k])"

definition map_has :: "addr_map \<Rightarrow> string \<Rightarrow> bool" where
  "map_has m k = (k \<in> set m)"

text \<open>
  \<^verbatim>\<open>for k := range m\<close> visits every key once, in an order the language leaves
  open and that may differ from one loop to the next. The order is a choice of the
  runtime: a list of numbers, each picking the next key among those not yet visited.
  Every choice list yields a permutation of the keys, and every permutation is
  yielded by some choice list.
\<close>

type_synonym range_choice = "nat list"

fun go_range :: "range_choice \<Rightarrow> 'a list \<Rightarrow> 'a list" where
  "go_range ch [] = []"
| "go_range [] ks = ks"
| "go_range (n # ch) ks =
     (let i = n mod length ks
      in ks ! i # go_range ch (take i ks @ drop (Suc i) ks))"

subsection \<open>Updates (package naming of grpc-go)\<close>

text \<open>
  \<^verbatim>\<open>naming.Update\<close> has the fields \<^verbatim>\<open>Op\<close>, \<^verbatim>\<open>Addr\<close> and \<^verbatim>\<open>Metadata\<close>; the
  resolver never sets the last one. A batch is a slice of updates; the nil slice and
  the empty slice are both \<open>[]\<close> (the code only takes \<^verbatim>\<open>len\<close> of a batch).
\<close>

datatype operation = Add | Delete

datatype update = Update (Op: operation) (Addr: string)

type_synonym batch = "update list"

subsection \<open>\<^verbatim>\<open>makeUpdates\<close>\<close>

text \<open>
  The two maps are filled from the two slices, then one loop ranges over
  \<^verbatim>\<open>newAddr\<close> appending an \<open>Add\<close> for each key missing in \<^verbatim>\<open>oldAddr\<close>, and a second
  loop ranges over \<^verbatim>\<open>oldAddr\<close> appending a \<open>Delete\<close> for each key missing in
  \<^verbatim>\<open>newAddr\<close>. The two range orders are the arguments \<open>chNew\<close> and \<open>chOld\<close>.
\<close>

definition makeUpdates ::
  "range_choice \<Rightarrow> range_choice \<Rightarrow> string list \<Rightarrow> string list \<Rightarrow> batch" where
  "makeUpdates chNew chOld oldInstances newInstances =
     (let oldAddr = foldl map_store [] oldInstances;
          newAddr = foldl map_store [] newInstances;
          updates = [];
          updates = foldl (\<lambda>u addr. if \<not> map_has oldAddr addr
                                     then u @ [Update Add addr] else u)
                          updates (go_range chNew newAddr);
          updates = foldl (\<lambda>u addr. if \<not> map_has newAddr addr
                                     then u @ [Update Delete addr] else u)
                          updates (go_range chOld oldAddr)
      in updates)"

subsection \<open>Go channels\<close>

text \<open>
  A channel has a buffer of \<open>cap\<close> slots and may be closed. A send on a closed
  channel panics, a send with a free slot appends to the buffer, any other send
  waits. A receive takes the oldest buffered value; on an empty buffer it yields
  the zero value at once when the channel is closed and waits otherwise. Closing
  a closed channel panics. (A send on a channel without buffer also completes
  when a receiver waits; the resolver never sends on its unbuffered channel.)
\<close>

record 'a chan =
  buf :: "'a list"
  cap :: nat
  closed :: bool

datatype panic = SendOnClosedChannel | CloseOfClosedChannel

datatype 'a send_result = SendOk "'a chan" | SendBlocked | SendPanic

datatype 'a recv_result = RecvOk 'a "'a chan" | RecvClosed | RecvBlocked

definition make_chan :: "nat \<Rightarrow> 'a chan" where
  "make_chan n = \<lparr>buf = [], cap = n, closed = False\<rparr>"

definition chan_send :: "'a \<Rightarrow> 'a chan \<Rightarrow> 'a send_result" where
  "chan_send v ch =
     (if closed ch then SendPanic
      else if length (buf ch) < cap ch then SendOk (ch\<lparr>buf := buf ch @ [v]\<rparr>)
      else SendBlocked)"

definition chan_recv :: "'a chan \<Rightarrow> 'a recv_result" where
  "chan_recv ch =
     (case buf ch of
        v # vs \<Rightarrow> RecvOk v (ch\<lparr>buf := vs\<rparr>)
      | [] \<Rightarrow> if closed ch then RecvClosed else RecvBlocked)"

definition chan_close :: "'a chan \<Rightarrow> panic + 'a chan" where
  "chan_close ch =
     (if closed ch then Inl CloseOfClosedChannel else Inr (ch\<lparr>closed := True\<rparr>))"

subsection \<open>Control flow of \<^verbatim>\<open>break\<close> and \<^verbatim>\<open>continue\<close>\<close>

text \<open>
  A statement ends normally, with \<^verbatim>\<open>break\<close> or with \<^verbatim>\<open>continue\<close>. In Go a
  \<^verbatim>\<open>break\<close> ends the innermost \<^verbatim>\<open>for\<close>, \<^verbatim>\<open>switch\<close> or \<^verbatim>\<open>select\<close> statement, so a
  \<^verbatim>\<open>select\<close> whose chosen case ends with \<^verbatim>\<open>break\<close> ends normally; a \<^verbatim>\<open>continue\<close>
  passes through it to the enclosing loop.
\<close>

datatype flow = Normal | Break | Continue

definition select_stmt :: "flow \<Rightarrow> flow" where
  "select_stmt body = (case body of Break \<Rightarrow> Normal | Normal \<Rightarrow> Normal | Continue \<Rightarrow> Continue)"

subsection \<open>The registry client (package api of Consul)\<close>

text \<open>
  \<^verbatim>\<open>Health().Service(service, tag, passingOnly, &QueryOptions{WaitIndex: i})\<close> is a
  call to the Consul agent. What the agent answers is not in the hands of the
  program: at each call the registry is a function from the query to the reply, an
  error or the service entries with \<^verbatim>\<open>meta.LastIndex\<close>. Of a service entry the
  resolver reads \<^verbatim>\<open>Service.Address\<close>, \<^verbatim>\<open>Node.Address\<close> and \<^verbatim>\<open>Service.Port\<close>.
\<close>

datatype client = Client string

record health_query =
  q_service :: string
  q_tag :: string
  q_passingOnly :: bool
  q_WaitIndex :: "64 word"

record service_entry =
  Service_Address :: string
  Node_Address :: string
  Service_Port :: int

datatype health_reply = HealthErr string | HealthOk "service_entry list" "64 word"

type_synonym registry = "health_query \<Rightarrow> health_reply"

text \<open>
  \<^verbatim>\<open>strconv.Itoa\<close> writes an integer in decimal; \<^verbatim>\<open>net.JoinHostPort\<close> joins host
  and port with a colon and puts a host that contains a colon in brackets.
\<close>

function dec_digits :: "nat \<Rightarrow> string" where
  "dec_digits n =
     (if n < 10 then [''0123456789'' ! n]
      else dec_digits (n div 10) @ [''0123456789'' ! (n mod 10)])"
  by pat_completeness auto
termination
  by (relation "measure (\<lambda>n. n)") auto

definition Itoa :: "int \<Rightarrow> string" where
  "Itoa i = (if i < 0 then CHR ''-'' # dec_digits (nat (- i)) else dec_digits (nat i))"

definition JoinHostPort :: "string \<Rightarrow> string \<Rightarrow> string" where
  "JoinHostPort host port =
     (if CHR '':'' \<in> set host then ''['' @ host @ '']:'' @ port
      else host @ '':'' @ port)"

subsection \<open>The resolver\<close>

text \<open>
  The struct \<^verbatim>\<open>Resolver\<close> (its field \<^verbatim>\<open>c\<close> is \<open>c_client\<close> here). A logger is a
  sink for messages; what was written to the loggers is kept in the state of the
  whole system. An \<^verbatim>\<open>Option\<close> is a function that sets a field of the resolver; the
  fields are not exported, so the options are those the package builds, \<^verbatim>\<open>WithTag\<close>
  and \<^verbatim>\<open>WithLogger\<close>.
\<close>

datatype logger = StdLogger | UserLogger nat

record resolver =
  c_client :: client
  service :: string
  tag :: string
  logger :: logger
  passingOnly :: bool
  chanQuit :: "unit chan"
  chanUpdates :: "batch chan"

datatype resolver_option = WithTag string | WithLogger logger

fun apply_option :: "resolver \<Rightarrow> resolver_option \<Rightarrow> resolver" where
  "apply_option r (WithTag t) = r\<lparr>tag := t\<rparr>"
| "apply_option r (WithLogger l) = r\<lparr>logger := l\<rparr>"

definition Infof_error :: "string \<Rightarrow> string" where
  "Infof_error err =
     ''naming/consul: error retrieving instances from Consul: '' @ err @ [CHR 0x0A]"

subsection \<open>\<^verbatim>\<open>getInstances\<close>\<close>

definition instance_addr :: "service_entry \<Rightarrow> string" where
  "instance_addr se =
     (let s = Service_Address se;
          s = (if length s = 0 then Node_Address se else s)
      in JoinHostPort s (Itoa (Service_Port se)))"

definition getInstances ::
  "resolver \<Rightarrow> registry \<Rightarrow> 64 word \<Rightarrow> string list \<times> 64 word \<times> string option" where
  "getInstances r consul lastIndex =
     (case consul \<lparr>q_service = service r, q_tag = tag r,
                   q_passingOnly = passingOnly r, q_WaitIndex = lastIndex\<rparr> of
        HealthErr err \<Rightarrow> ([], lastIndex, Some err)
      | HealthOk services meta_LastIndex \<Rightarrow>
          (foldl (\<lambda>instances se. instances @ [instance_addr se]) [] services,
           meta_LastIndex, None))"

subsection \<open>\<^verbatim>\<open>Next\<close> and \<^verbatim>\<open>Close\<close>\<close>

text \<open>
  \<^verbatim>\<open>Next\<close> returns what it receives from \<^verbatim>\<open>chanUpdates\<close> together with a nil
  error, or waits. The zero value received from a closed channel is the nil batch.
\<close>

datatype next_result = NextReturned batch "string option" resolver | NextBlocked

definition Next :: "resolver \<Rightarrow> next_result" where
  "Next r =
     (case chan_recv (chanUpdates r) of
        RecvOk updates ch \<Rightarrow> NextReturned updates None (r\<lparr>chanUpdates := ch\<rparr>)
      | RecvClosed \<Rightarrow> NextReturned [] None r
      | RecvBlocked \<Rightarrow> NextBlocked)"

text \<open>
  \<^verbatim>\<open>Close\<close> is a \<^verbatim>\<open>select\<close> with a receive from \<^verbatim>\<open>chanQuit\<close> and a default case:
  when the receive can proceed nothing else is done, otherwise both channels are
  closed. The call as a whole is one step: this is the sequential use of \<^verbatim>\<open>Close\<close>.
\<close>

definition Close :: "resolver \<Rightarrow> panic + resolver" where
  "Close r =
     (case chan_recv (chanQuit r) of
        RecvOk v ch \<Rightarrow> Inr (r\<lparr>chanQuit := ch\<rparr>)
      | RecvClosed \<Rightarrow> Inr r
      | RecvBlocked \<Rightarrow>
          (case chan_close (chanQuit r) of
             Inl p \<Rightarrow> Inl p
           | Inr q \<Rightarrow>
               (case chan_close (chanUpdates r) of
                  Inl p \<Rightarrow> Inl p
                | Inr u \<Rightarrow> Inr (r\<lparr>chanQuit := q, chanUpdates := u\<rparr>))))"

subsection \<open>The system: resolver, poller goroutine, log\<close>

text \<open>
  The goroutine \<^verbatim>\<open>backgroundUpdater\<close> runs beside the consumer, so its loop is a
  step function on the state of the whole system. The poller is at the \<^verbatim>\<open>select\<close>
  at the top of the loop (\<open>AtSelect\<close>), inside the call of \<^verbatim>\<open>getInstances\<close>
  (\<open>Fetching\<close>), at the send \<^verbatim>\<open>r.chanUpdates <- updates\<close> with its \<^verbatim>\<open>updates\<close> and
  \<^verbatim>\<open>newInstances\<close> (\<open>Sending\<close>), or it has left the loop and returned
  (\<open>Returned\<close>). A panic in any goroutine ends the process: \<open>crashed\<close>.
\<close>

datatype poller_pc = AtSelect | Fetching | Sending batch "string list" | Returned

record system =
  res :: resolver
  oldInstances :: "string list"
  lastIndex :: "64 word"
  pc :: poller_pc
  logged :: "(logger \<times> string) list"
  crashed :: "panic option"

text \<open>
  The loop \<^verbatim>\<open>for { ... }\<close> has no condition: after its body it starts the next
  iteration, unless the body ended with a \<^verbatim>\<open>break\<close> of the loop itself. Nothing
  follows the loop, so leaving it returns from the function.
\<close>

definition for_stmt :: "flow \<Rightarrow> poller_pc" where
  "for_stmt body = (case body of Break \<Rightarrow> Returned | Normal \<Rightarrow> AtSelect | Continue \<Rightarrow> AtSelect)"

definition poller_step :: "registry \<Rightarrow> range_choice \<Rightarrow> range_choice \<Rightarrow> system \<Rightarrow> system" where
  "poller_step consul chNew chOld s =
     (case pc s of
        AtSelect \<Rightarrow>
          (case chan_recv (chanQuit (res s)) of
             RecvOk v ch \<Rightarrow>
               s\<lparr>res := (res s)\<lparr>chanQuit := ch\<rparr>, pc := for_stmt (select_stmt Break)\<rparr>
           | RecvClosed \<Rightarrow> s\<lparr>pc := for_stmt (select_stmt Break)\<rparr>
           | RecvBlocked \<Rightarrow> s\<lparr>pc := Fetching\<rparr>)
      | Fetching \<Rightarrow>
          (case getInstances (res s) consul (lastIndex s) of
             (newInstances, index, err) \<Rightarrow>
               (case err of
                  Some e \<Rightarrow>
                    s\<lparr>lastIndex := index,
                      logged := logged s @ [(logger (res s), Infof_error e)],
                      pc := for_stmt (select_stmt Continue)\<rparr>
                | None \<Rightarrow>
                    (let updates = makeUpdates chNew chOld (oldInstances s) newInstances
                     in if length updates > 0
                        then s\<lparr>lastIndex := index, pc := Sending updates newInstances\<rparr>
                        else s\<lparr>lastIndex := index, oldInstances := newInstances,
                               pc := for_stmt (select_stmt Normal)\<rparr>)))
      | Sending updates newInstances \<Rightarrow>
          (case chan_send updates (chanUpdates (res s)) of
             SendOk ch \<Rightarrow>
               s\<lparr>res := (res s)\<lparr>chanUpdates := ch\<rparr>, oldInstances := newInstances,
                 pc := for_stmt (select_stmt Normal)\<rparr>
           | SendBlocked \<Rightarrow> s
           | SendPanic \<Rightarrow> s\<lparr>crashed := Some SendOnClosedChannel\<rparr>)
      | Returned \<Rightarrow> s)"

subsection \<open>\<^verbatim>\<open>NewConsulResolver\<close>\<close>

text \<open>
  The struct literal and the loop over the options come first
  (\<open>init_resolver\<close>), then the fetch with index 0, the log line on failure, the
  initial batch, and the start of the goroutine with the instances and the index.
\<close>

definition init_resolver :: "client \<Rightarrow> string \<Rightarrow> resolver_option list \<Rightarrow> resolver" where
  "init_resolver cl svc opts =
     foldl apply_option
       \<lparr>c_client = cl, service = svc, tag = [], logger = StdLogger, passingOnly = True,
        chanQuit = make_chan 0, chanUpdates = make_chan 1\<rparr> opts"

datatype construct_result =
  Constructed system "string option" | ConstructBlocked | ConstructPanic panic

definition start_system ::
  "resolver \<Rightarrow> string list \<Rightarrow> 64 word \<Rightarrow> (logger \<times> string) list \<Rightarrow> system" where
  "start_system r instances index lg =
     \<lparr>res = r, oldInstances = instances, lastIndex = index, pc = AtSelect,
      logged = lg, crashed = None\<rparr>"

definition NewConsulResolver ::
  "client \<Rightarrow> string \<Rightarrow> resolver_option list \<Rightarrow> registry \<Rightarrow> range_choice \<Rightarrow> range_choice
     \<Rightarrow> construct_result" where
  "NewConsulResolver cl svc opts consul chNew chOld =
     (let r = init_resolver cl svc opts
      in case getInstances r consul 0 of
           (instances, index, err) \<Rightarrow>
             (let lg = (case err of
                          Some e \<Rightarrow> [(logger r, Infof_error e)]
                        | None \<Rightarrow> []);
                  updates = makeUpdates chNew chOld [] instances
              in if length updates > 0
                 then (case chan_send updates (chanUpdates r) of
                         SendOk ch \<Rightarrow>
                           Constructed
                             (start_system (r\<lparr>chanUpdates := ch\<rparr>) instances index lg) None
                       | SendBlocked \<Rightarrow> ConstructBlocked
                       | SendPanic \<Rightarrow> ConstructPanic SendOnClosedChannel)
                 else Constructed (start_system r instances index lg) None))"

subsection \<open>Runs of the system\<close>

text \<open>
  A run is a list of actions: a step of the poller (with the registry of that
  moment and the range orders of that iteration), a call of \<^verbatim>\<open>Next\<close> or a call of
  \<^verbatim>\<open>Close\<close> by the consumer. A step that has to wait leaves the state as it is.
  After a panic the process is gone and nothing happens any more.
\<close>

datatype action = PollerStep registry range_choice range_choice | CallNext | CallClose

definition step :: "action \<Rightarrow> system \<Rightarrow> system" where
  "step a s =
     (if crashed s \<noteq> None then s
      else case a of
             PollerStep consul chNew chOld \<Rightarrow> poller_step consul chNew chOld s
           | CallNext \<Rightarrow>
               (case Next (res s) of
                  NextReturned updates err r \<Rightarrow> s\<lparr>res := r\<rparr>
                | NextBlocked \<Rightarrow> s)
           | CallClose \<Rightarrow>
               (case Close (res s) of
                  Inl p \<Rightarrow> s\<lparr>crashed := Some p\<rparr>
                | Inr r \<Rightarrow> s\<lparr>res := r\<rparr>))"

fun exec :: "action list \<Rightarrow> system \<Rightarrow> system" where
  "exec [] s = s"
| "exec (a # as) s = exec as (step a s)"

text \<open>
  What a run shows: the batches whose send by the poller completed
  (\<open>published\<close>), and the values the calls of \<^verbatim>\<open>Next\<close> returned (\<open>next_returns\<close>).
\<close>

definition published_by :: "action \<Rightarrow> system \<Rightarrow> batch list" where
  "published_by a s =
     (if crashed s \<noteq> None then []
      else case a of
             PollerStep consul chNew chOld \<Rightarrow>
               (case pc s of
                  Sending updates newInstances \<Rightarrow>
                    (case chan_send updates (chanUpdates (res s)) of
                       SendOk ch \<Rightarrow> [updates]
                     | SendBlocked \<Rightarrow> []
                     | SendPanic \<Rightarrow> [])
                | AtSelect \<Rightarrow> []
                | Fetching \<Rightarrow> []
                | Returned \<Rightarrow> [])
           | CallNext \<Rightarrow> []
           | CallClose \<Rightarrow> [])"

definition returned_by :: "action \<Rightarrow> system \<Rightarrow> (batch \<times> string option) list" where
  "returned_by a s =
     (if crashed s \<noteq> None then []
      else case a of
             CallNext \<Rightarrow>
               (case Next (res s) of
                  NextReturned updates err r \<Rightarrow> [(updates, err)]
                | NextBlocked \<Rightarrow> [])
           | PollerStep consul chNew chOld \<Rightarrow> []
           | CallClose \<Rightarrow> [])"

fun published :: "action list \<Rightarrow> system \<Rightarrow> batch list" where
  "published [] s = []"
| "published (a # as) s = published_by a s @ published as (step a s)"

fun next_returns :: "action list \<Rightarrow> system \<Rightarrow> (batch \<times> string option) list" where
  "next_returns [] s = []"
| "next_returns (a # as) s = returned_by a s @ next_returns as (step a s)"

subsection \<open>Invariants of the reachable states\<close>

text \<open>
  Nothing is ever sent on \<^verbatim>\<open>chanQuit\<close>, the two channels are closed together,
  \<^verbatim>\<open>chanUpdates\<close> has one slot, and a panic needs a closed channel. The batches in
  the channel and the batch of a pending send are not empty.
\<close>

definition chans_inv :: "system \<Rightarrow> bool" where
  "chans_inv s =
     (buf (chanQuit (res s)) = [] \<and>
      closed (chanUpdates (res s)) = closed (chanQuit (res s)) \<and>
      cap (chanUpdates (res s)) = 1 \<and>
      length (buf (chanUpdates (res s))) \<le> 1 \<and>
      (crashed s = None \<or> closed (chanQuit (res s))))"

definition batches_inv :: "system \<Rightarrow> bool" where
  "batches_inv s =
     ([] \<notin> set (buf (chanUpdates (res s))) \<and>
      (case pc s of Sending updates newInstances \<Rightarrow> updates \<noteq> []
       | AtSelect \<Rightarrow> True | Fetching \<Rightarrow> True | Returned \<Rightarrow> True))"

text \<open>
  A poller step whose fetch, made with the given resolver and index, fails.
\<close>

definition poll_fails :: "resolver \<Rightarrow> 64 word \<Rightarrow> action \<Rightarrow> bool" where
  "poll_fails r i a =
     (case a of
        PollerStep consul chNew chOld \<Rightarrow>
          (case getInstances r consul i of (instances, index, err) \<Rightarrow> err \<noteq> None)
      | CallNext \<Rightarrow> False
      | CallClose \<Rightarrow> False)"

subsection \<open>Registries of the example runs\<close>

text \<open>
  Four answers of the registry: one instance, two instances (the second entry
  has no service address, so the address of its node is taken), no instance, and
  a failure.
\<close>

definition registry_X :: registry where
  "registry_X =
     (\<lambda>q. HealthOk [\<lparr>Service_Address = ''10.0.0.1'', Node_Address = ''node1'',
                      Service_Port = 80\<rparr>] 7)"

definition registry_XY :: registry where
  "registry_XY =
     (\<lambda>q. HealthOk [\<lparr>Service_Address = ''10.0.0.1'', Node_Address = ''node1'',
                      Service_Port = 80\<rparr>,
                    \<lparr>Service_Address = [], Node_Address = ''10.0.0.2'',
                      Service_Port = 8080\<rparr>] 9)"

definition registry_none :: registry where
  "registry_none = (\<lambda>q. HealthOk [] 1)"

definition registry_down :: registry where
  "registry_down = (\<lambda>q. HealthErr ''timeout'')"

section \<open>Properties of the diff\<close>

lemma mset_go_range: "mset (go_range ch ks) = mset ks"
proof (induction ch ks rule: go_range.induct)
  case (1 ch)
  show ?case by simp
next
  case (2 v va)
  show ?case by simp
next
  case (3 n ch v va)
  define ks where "ks = v # va"
  define i where "i = n mod length ks"
  have i: "i < length ks" by (simp add: i_def ks_def)
  have ih: "mset (go_range ch (take i ks @ drop (Suc i) ks)) = mset (take i ks @ drop (Suc i) ks)"
    using "3.IH" [of i] by (simp add: i_def ks_def)
  have "mset ks = mset (take i ks @ ks ! i # drop (Suc i) ks)"
    using id_take_nth_drop [OF i] by simp
  then have "mset ks = add_mset (ks ! i) (mset (take i ks @ drop (Suc i) ks))"
    by simp
  with ih show ?case
    by (simp add: Let_def i_def ks_def)
qed

lemma set_go_range [simp]: "set (go_range ch ks) = set ks"
  using mset_go_range [of ch ks] by (metis set_mset_mset)

lemma distinct_go_range [simp]: "distinct (go_range ch ks) = distinct ks"
  using mset_go_range [of ch ks] by (metis mset_eq_imp_distinct_iff)

text \<open>Every order of the keys is the range order of some choice list.\<close>

lemma go_range_pick:
  assumes "i < length ks"
  shows "go_range (i # ch) ks = ks ! i # go_range ch (take i ks @ drop (Suc i) ks)"
proof (cases ks)
  case Nil
  with assms show ?thesis by simp
next
  case (Cons v va)
  with assms show ?thesis by (simp add: Let_def)
qed

lemma go_range_any_order: "mset xs = mset ks \<Longrightarrow> \<exists>ch. go_range ch ks = xs"
proof (induction xs arbitrary: ks)
  case Nil
  then have "ks = []" by simp
  then show ?case by simp
next
  case (Cons x xs)
  have "x \<in> set ks" using Cons.prems by (metis list.set_intros(1) mset_eq_setD)
  then obtain i where i: "i < length ks" and x: "ks ! i = x"
    by (auto simp: in_set_conv_nth)
  let ?ks' = "take i ks @ drop (Suc i) ks"
  have "mset ks = add_mset x (mset ?ks')"
    using id_take_nth_drop [OF i] x by (metis mset.simps(2) mset_append union_mset_add_mset_right)
  then have "mset xs = mset ?ks'" using Cons.prems by simp
  then obtain ch where "go_range ch ?ks' = xs" using Cons.IH by blast
  then have "go_range (i # ch) ks = x # xs" using go_range_pick [OF i] x by simp
  then show ?case by blast
qed

lemma set_foldl_map_store: "set (foldl map_store m xs) = set m \<union> set xs"
  by (induction xs arbitrary: m) (auto simp: map_store_def)

lemma distinct_foldl_map_store: "distinct m \<Longrightarrow> distinct (foldl map_store m xs)"
  by (induction xs arbitrary: m) (auto simp: map_store_def)

lemma foldl_emit:
  "foldl (\<lambda>u a. if P a then u @ [f a] else u) acc ks = acc @ map f (filter P ks)"
  by (induction ks arbitrary: acc) auto

lemma makeUpdates_eq:
  "makeUpdates chNew chOld old new =
     map (Update Add)
       (filter (\<lambda>a. a \<notin> set old) (go_range chNew (foldl map_store [] new))) @
     map (Update Delete)
       (filter (\<lambda>a. a \<notin> set new) (go_range chOld (foldl map_store [] old)))"
  by (simp add: makeUpdates_def Let_def map_has_def foldl_emit set_foldl_map_store)

lemma set_makeUpdates:
  "set (makeUpdates chNew chOld old new) =
     Update Add ` (set new - set old) \<union> Update Delete ` (set old - set new)"
  by (auto simp: makeUpdates_eq set_foldl_map_store)

lemma distinct_makeUpdates: "distinct (makeUpdates chNew chOld old new)"
  by (auto simp: makeUpdates_eq distinct_map inj_on_def distinct_foldl_map_store)

lemma makeUpdates_same: "makeUpdates chNew chOld A A = []"
  by (simp add: makeUpdates_eq set_foldl_map_store)

lemma distinct_Addr_makeUpdates: "distinct (map Addr (makeUpdates chNew chOld old new))"
  by (auto simp: makeUpdates_eq comp_def distinct_foldl_map_store set_foldl_map_store)

lemma makeUpdates_nil_old: "set (makeUpdates chNew chOld [] new) = Update Add ` set new"
  by (simp add: set_makeUpdates)

lemma makeUpdates_nil_iff: "makeUpdates chNew chOld [] new = [] \<longleftrightarrow> new = []"
proof -
  have "set (makeUpdates chNew chOld [] new) = {} \<longleftrightarrow> set new = {}"
    by (simp add: set_makeUpdates)
  then show ?thesis by simp
qed

section \<open>Properties of the system\<close>

lemmas chan_defs = chan_send_def chan_recv_def chan_close_def make_chan_def
lemmas flow_defs = for_stmt_def select_stmt_def

lemma init_resolver_chans:
  "chanQuit (foldl apply_option r opts) = chanQuit r \<and>
   chanUpdates (foldl apply_option r opts) = chanUpdates r \<and>
   service (foldl apply_option r opts) = service r \<and>
   passingOnly (foldl apply_option r opts) = passingOnly r \<and>
   c_client (foldl apply_option r opts) = c_client r"
proof (induction opts arbitrary: r)
  case Nil
  show ?case by simp
next
  case (Cons a opts)
  show ?case by (cases a) (simp_all add: Cons.IH)
qed

lemma init_resolver_chanUpdates [simp]:
  "chanUpdates (init_resolver cl svc opts) = make_chan 1"
  by (simp add: init_resolver_def init_resolver_chans)

lemma init_resolver_chanQuit [simp]:
  "chanQuit (init_resolver cl svc opts) = make_chan 0"
  by (simp add: init_resolver_def init_resolver_chans)

lemma getInstances_err:
  "getInstances r consul i = (instances, index, Some e) \<Longrightarrow> instances = [] \<and> index = i"
  by (auto simp: getInstances_def split: health_reply.splits)

lemma chanUpdates_update_same: "chanUpdates r = ch \<Longrightarrow> r\<lparr>chanUpdates := ch\<rparr> = r"
  by (cases r) simp

lemma makeUpdates_nil_iff': "[] = makeUpdates chNew chOld [] new \<longleftrightarrow> new = []"
  using makeUpdates_nil_iff [of chNew chOld new] by auto

lemma NewConsulResolver_eq:
  assumes "getInstances (init_resolver cl svc opts) consul 0 = (instances, index, err)"
  shows "NewConsulResolver cl svc opts consul chNew chOld =
           Constructed
             (start_system
                ((init_resolver cl svc opts)
                   \<lparr>chanUpdates :=
                      \<lparr>buf = (if instances = [] then []
                              else [makeUpdates chNew chOld [] instances]),
                       cap = 1, closed = False\<rparr>\<rparr>)
                instances index
                (case err of Some e \<Rightarrow> [(logger (init_resolver cl svc opts), Infof_error e)]
                 | None \<Rightarrow> []))
             None"
proof (cases "instances = []")
  case True
  then have "makeUpdates chNew chOld [] instances = []" by (simp add: makeUpdates_nil_iff)
  with True assms show ?thesis
    by (simp add: NewConsulResolver_def Let_def make_chan_def chanUpdates_update_same)
next
  case False
  then have "makeUpdates chNew chOld [] instances \<noteq> []" by (simp add: makeUpdates_nil_iff)
  with False assms show ?thesis
    by (simp add: NewConsulResolver_def Let_def chan_defs)
qed

lemma step_chans_inv: "chans_inv s \<Longrightarrow> chans_inv (step a s)"
  by (cases a)
     (auto simp: chans_inv_def step_def poller_step_def Next_def Close_def chan_defs
        flow_defs Let_def
        split: poller_pc.splits list.splits option.splits if_splits prod.splits)

lemma exec_chans_inv: "chans_inv s \<Longrightarrow> chans_inv (exec acts s)"
  by (induction acts arbitrary: s) (simp_all add: step_chans_inv)

lemma step_batches_inv: "batches_inv s \<Longrightarrow> batches_inv (step a s)"
  by (cases a)
     (auto simp: batches_inv_def step_def poller_step_def Next_def Close_def chan_defs
        flow_defs Let_def
        split: poller_pc.splits list.splits option.splits if_splits prod.splits)

lemma exec_batches_inv: "batches_inv s \<Longrightarrow> batches_inv (exec acts s)"
  by (induction acts arbitrary: s) (simp_all add: step_batches_inv)

lemma constructed_inv:
  assumes "NewConsulResolver cl svc opts consul chNew chOld = Constructed s err"
  shows "chans_inv s \<and> batches_inv s \<and> err = None \<and> pc s = AtSelect \<and> crashed s = None"
proof -
  obtain instances index e where
    g: "getInstances (init_resolver cl svc opts) consul 0 = (instances, index, e)"
    by (metis prod_cases3)
  show ?thesis
    using assms unfolding NewConsulResolver_eq [OF g]
    by (auto simp: chans_inv_def batches_inv_def start_system_def make_chan_def
        makeUpdates_nil_iff makeUpdates_nil_iff' split: if_splits)
qed

lemma init_resolver_fields [simp]:
  "service (init_resolver cl svc opts) = svc"
  "passingOnly (init_resolver cl svc opts) = True"
  "c_client (init_resolver cl svc opts) = cl"
  by (simp_all add: init_resolver_def init_resolver_chans)

lemma Next_err: "Next r = NextReturned updates err r' \<Longrightarrow> err = None"
  by (auto simp: Next_def split: recv_result.splits)

lemma returned_by_err: "x \<in> set (returned_by a s) \<Longrightarrow> snd x = None"
  by (cases a) (auto simp: returned_by_def Next_def split: recv_result.splits if_splits)

lemma next_returns_err: "x \<in> set (next_returns acts s) \<Longrightarrow> snd x = None"
  by (induction acts arbitrary: s) (auto dest: returned_by_err)

lemma Close_twice:
  assumes "buf (chanQuit r) = []" and "closed (chanUpdates r) = closed (chanQuit r)"
  shows "\<exists>r1. Close r = Inr r1 \<and> closed (chanQuit r1) \<and> closed (chanUpdates r1) \<and>
              buf (chanUpdates r1) = buf (chanUpdates r) \<and> Close r1 = Inr r1"
  using assms by (simp add: Close_def chan_defs)

lemma step_closed:
  "closed (chanUpdates (res s)) \<Longrightarrow> closed (chanUpdates (res (step a s)))"
  by (cases a)
     (auto simp: step_def poller_step_def Next_def Close_def chan_defs
        flow_defs Let_def
        split: poller_pc.splits list.splits option.splits if_splits prod.splits)

lemma exec_closed:
  "closed (chanUpdates (res s)) \<Longrightarrow> closed (chanUpdates (res (exec acts s)))"
  by (induction acts arbitrary: s) (simp_all add: step_closed)

lemma step_CallClose_closed:
  "chans_inv s \<Longrightarrow> closed (chanUpdates (res (step CallClose s)))"
  by (auto simp: chans_inv_def step_def Close_def chan_defs split: list.splits)

lemma closed_after_Close:
  "chans_inv s \<Longrightarrow> CallClose \<in> set acts \<Longrightarrow> closed (chanUpdates (res (exec acts s)))"
proof (induction acts arbitrary: s)
  case Nil
  then show ?case by simp
next
  case (Cons a acts)
  show ?case
  proof (cases "a = CallClose")
    case True
    then show ?thesis
      using Cons.prems(1) by (simp add: step_CallClose_closed exec_closed)
  next
    case False
    then have "CallClose \<in> set acts" using Cons.prems(2) by simp
    then show ?thesis
      using Cons.IH [OF step_chans_inv [OF Cons.prems(1)]] by simp
  qed
qed

lemma Next_closed_empty:
  "closed (chanUpdates r) \<Longrightarrow> buf (chanUpdates r) = [] \<Longrightarrow> Next r = NextReturned [] None r"
  by (simp add: Next_def chan_recv_def)

lemma foldl_snoc_map: "foldl (\<lambda>acc x. acc @ [f x]) acc xs = acc @ map f xs"
  by (induction xs arbitrary: acc) auto

lemma getInstances_ok:
  assumes "consul \<lparr>q_service = service r, q_tag = tag r, q_passingOnly = passingOnly r,
                   q_WaitIndex = i\<rparr> = HealthOk services index"
  shows "getInstances r consul i = (map instance_addr services, index, None)"
  using assms by (simp add: getInstances_def foldl_snoc_map)

lemma step_keeps_full:
  assumes "buf (chanUpdates (res s)) = [B]" and "cap (chanUpdates (res s)) = 1"
    and "a \<noteq> CallNext"
  shows "buf (chanUpdates (res (step a s))) = [B] \<and> cap (chanUpdates (res (step a s))) = 1"
  using assms
  by (cases a)
     (auto simp: step_def poller_step_def Close_def chan_defs flow_defs Let_def
        split: poller_pc.splits list.splits option.splits if_splits prod.splits)

lemma exec_keeps_full:
  assumes "buf (chanUpdates (res s)) = [B]" and "cap (chanUpdates (res s)) = 1"
    and "CallNext \<notin> set acts"
  shows "buf (chanUpdates (res (exec acts s))) = [B]"
  using assms
proof (induction acts arbitrary: s)
  case Nil
  then show ?case by simp
next
  case (Cons a acts)
  have "a \<noteq> CallNext" and rest: "CallNext \<notin> set acts" using Cons.prems(3) by auto
  from step_keeps_full [OF Cons.prems(1,2) this(1)]
  show ?case using Cons.IH rest by simp
qed

lemma Next_head:
  "buf (chanUpdates r) = B # bs \<Longrightarrow>
     Next r = NextReturned B None (r\<lparr>chanUpdates := (chanUpdates r)\<lparr>buf := bs\<rparr>\<rparr>)"
  by (simp add: Next_def chan_recv_def)

lemma step_fifo:
  assumes "batches_inv s"
  shows "filter (\<lambda>b. b \<noteq> []) (map fst (returned_by a s)) @ buf (chanUpdates (res (step a s))) =
         buf (chanUpdates (res s)) @ published_by a s"
  using assms
  by (cases a)
     (auto simp: batches_inv_def step_def returned_by_def published_by_def poller_step_def
        Next_def Close_def chan_defs flow_defs Let_def
        split: poller_pc.splits list.splits option.splits if_splits prod.splits)

lemma exec_fifo:
  assumes "batches_inv s"
  shows "filter (\<lambda>b. b \<noteq> []) (map fst (next_returns acts s)) @
           buf (chanUpdates (res (exec acts s))) =
         buf (chanUpdates (res s)) @ published acts s"
  using assms
proof (induction acts arbitrary: s)
  case Nil
  show ?case by simp
next
  case (Cons a acts)
  have ih: "filter (\<lambda>b. b \<noteq> []) (map fst (next_returns acts (step a s))) @
              buf (chanUpdates (res (exec acts (step a s)))) =
            buf (chanUpdates (res (step a s))) @ published acts (step a s)"
    using Cons.IH [OF step_batches_inv [OF Cons.prems]] .
  have "filter (\<lambda>b. b \<noteq> []) (map fst (next_returns (a # acts) s)) @
          buf (chanUpdates (res (exec (a # acts) s))) =
        filter (\<lambda>b. b \<noteq> []) (map fst (returned_by a s)) @
          (filter (\<lambda>b. b \<noteq> []) (map fst (next_returns acts (step a s))) @
           buf (chanUpdates (res (exec acts (step a s)))))"
    by simp
  also have "\<dots> = (filter (\<lambda>b. b \<noteq> []) (map fst (returned_by a s)) @
          buf (chanUpdates (res (step a s)))) @ published acts (step a s)"
    unfolding ih by simp
  also have "\<dots> = buf (chanUpdates (res s)) @ published (a # acts) s"
    unfolding step_fifo [OF Cons.prems] by simp
  finally show ?case .
qed

lemma step_not_Returned: "pc s \<noteq> Returned \<Longrightarrow> pc (step a s) \<noteq> Returned"
  by (cases a)
     (auto simp: step_def poller_step_def chan_defs flow_defs Let_def
        split: poller_pc.splits list.splits option.splits if_splits prod.splits
          next_result.splits sum.splits)

lemma exec_not_Returned: "pc s \<noteq> Returned \<Longrightarrow> pc (exec acts s) \<noteq> Returned"
  by (induction acts arbitrary: s) (simp_all add: step_not_Returned)

lemma step_failed_poll:
  assumes "buf (chanQuit (res s)) = []" and "pc s = AtSelect \<or> pc s = Fetching"
    and "poll_fails (res s) (lastIndex s) a"
  shows "res (step a s) = res s \<and> lastIndex (step a s) = lastIndex s \<and>
         oldInstances (step a s) = oldInstances s \<and> published_by a s = [] \<and>
         (pc (step a s) = AtSelect \<or> pc (step a s) = Fetching)"
  using assms
  by (cases a)
     (auto simp: poll_fails_def step_def published_by_def poller_step_def chan_defs flow_defs
        dest: getInstances_err
        split: poller_pc.splits list.splits option.splits if_splits prod.splits)

lemma exec_failed_polls:
  assumes "buf (chanQuit (res s)) = []" and "pc s = AtSelect \<or> pc s = Fetching"
    and "\<forall>a \<in> set acts. poll_fails (res s) (lastIndex s) a"
  shows "res (exec acts s) = res s \<and> lastIndex (exec acts s) = lastIndex s \<and>
         oldInstances (exec acts s) = oldInstances s \<and> published acts s = [] \<and>
         (pc (exec acts s) = AtSelect \<or> pc (exec acts s) = Fetching)"
  using assms
proof (induction acts arbitrary: s)
  case Nil
  then show ?case by simp
next
  case (Cons a acts)
  have a: "poll_fails (res s) (lastIndex s) a" using Cons.prems(3) by simp
  note st = step_failed_poll [OF Cons.prems(1,2) a]
  have "res (exec acts (step a s)) = res (step a s) \<and>
        lastIndex (exec acts (step a s)) = lastIndex (step a s) \<and>
        oldInstances (exec acts (step a s)) = oldInstances (step a s) \<and>
        published acts (step a s) = [] \<and>
        (pc (exec acts (step a s)) = AtSelect \<or> pc (exec acts (step a s)) = Fetching)"
    using st Cons.prems(1,3) by (intro Cons.IH) simp_all
  with st show ?case by simp
qed

lemmas run_defs = step_def poller_step_def Next_def Close_def chan_defs flow_defs
  returned_by_def published_by_def start_system_def init_resolver_def getInstances_def
  instance_addr_def JoinHostPort_def Itoa_def makeUpdates_def map_store_def map_has_def
  Infof_error_def

lemmas example_defs = registry_X_def registry_XY_def registry_none_def registry_down_def

lemma constructed_X:
  "NewConsulResolver (Client ''consul:8500'') ''api'' [] registry_X [] [] =
     Constructed
       (start_system
          ((init_resolver (Client ''consul:8500'') ''api'' [])
             \<lparr>chanUpdates := \<lparr>buf = [[Update Add ''10.0.0.1:80'']], cap = 1, closed = False\<rparr>\<rparr>)
          [''10.0.0.1:80''] 7 []) None"
  by (simp add: NewConsulResolver_def run_defs example_defs)

lemma constructed_none:
  "NewConsulResolver (Client ''consul:8500'') ''api'' [] registry_none [] [] =
     Constructed (start_system (init_resolver (Client ''consul:8500'') ''api'' []) [] 1 []) None"
  by (simp add: NewConsulResolver_def run_defs example_defs)

lemma constructed_XY:
  "NewConsulResolver (Client ''consul:8500'') ''api'' [WithTag ''v1''] registry_XY [1] [] =
     Constructed
       (start_system
          ((init_resolver (Client ''consul:8500'') ''api'' [WithTag ''v1''])
             \<lparr>chanUpdates :=
                \<lparr>buf = [[Update Add ''10.0.0.2:8080'', Update Add ''10.0.0.1:80'']],
                 cap = 1, closed = False\<rparr>\<rparr>)
          [''10.0.0.1:80'', ''10.0.0.2:8080''] 9 []) None"
  by (simp add: NewConsulResolver_def run_defs example_defs)

lemma step_spin:
  assumes "closed (chanQuit (res s))" and "buf (chanQuit (res s)) = []" and "pc s = AtSelect"
  shows "step (PollerStep consul chNew chOld) s = s"
  using assms by (simp add: step_def poller_step_def chan_recv_def flow_defs)

lemma exec_spin:
  assumes "closed (chanQuit (res s))" and "buf (chanQuit (res s)) = []" and "pc s = AtSelect"
    and "CallNext \<notin> set acts" and "CallClose \<notin> set acts"
  shows "exec acts s = s"
  using assms(4,5)
proof (induction acts)
  case Nil
  show ?case by simp
next
  case (Cons a acts)
  then obtain consul chNew chOld where "a = PollerStep consul chNew chOld"
    by (cases a) auto
  then show ?case using Cons step_spin [OF assms(1,2,3)] by simp
qed

text \<open>
  The send of the poller and \<^verbatim>\<open>Close\<close> are not ordered: when \<^verbatim>\<open>Close\<close> runs
  while the poller is inside the fetch and the fetch then brings a change, the
  poller sends on the closed channel and the process panics.
\<close>

lemma Close_during_fetch_panics:
  "crashed (exec [PollerStep registry_XY [] [], CallNext, CallClose,
                  PollerStep registry_XY [] [], PollerStep registry_XY [] []]
     (start_system
        ((init_resolver (Client ''consul:8500'') ''api'' [])
           \<lparr>chanUpdates := \<lparr>buf = [[Update Add ''10.0.0.1:80'']], cap = 1, closed = False\<rparr>\<rparr>)
        [''10.0.0.1:80''] 7 [])) = Some SendOnClosedChannel"
  by (simp add: run_defs example_defs)

section \<open>The claims\<close>

text \<open>
  Claim C1. For every pair of snapshots, the batch of \<open>makeUpdates\<close> holds no
  event twice, and its events are exactly an \<open>Add\<close> for each address of the new
  snapshot that the old one lacks and a \<open>Delete\<close> for each address of the old
  snapshot that the new one lacks, whatever the range orders; the diff of a
  snapshot with itself is empty.
\<close>

theorem makeUpdates_exact_diff:
  "distinct (makeUpdates chNew chOld old new) \<and>
   set (makeUpdates chNew chOld old new) =
     Update Add ` (set new - set old) \<union> Update Delete ` (set old - set new) \<and>
   makeUpdates chNew chOld A A = []"
  by (simp add: distinct_makeUpdates set_makeUpdates makeUpdates_same)

theorem makeUpdates_exact_diff_witness:
  "distinct (makeUpdates [1] [0] [''a'', ''b'', ''a''] [''b'', ''c'', ''c'']) \<and>
   set (makeUpdates [1] [0] [''a'', ''b'', ''a''] [''b'', ''c'', ''c'']) =
     {Update Add ''c'', Update Delete ''a''} \<and>
   makeUpdates [1] [0] [''a'', ''b''] [''a'', ''b''] = []"
  using makeUpdates_exact_diff
    [of "[1]" "[0]" "[''a'', ''b'', ''a'']" "[''b'', ''c'', ''c'']" "[''a'', ''b'']"]
  by (simp add: insert_Diff_if insert_commute)

text \<open>
  Claim C8. \<open>makeUpdates\<close> reads its two slices as sets: two calls whose old
  slices have the same addresses and whose new slices have the same addresses
  (in another order, with other repetitions, under other range orders) give the
  same set of events, and no address occurs in two events of a batch.
\<close>

theorem makeUpdates_inputs_as_sets:
  assumes "set old' = set old" and "set new' = set new"
  shows "set (makeUpdates chNew' chOld' old' new') = set (makeUpdates chNew chOld old new) \<and>
         distinct (map Addr (makeUpdates chNew chOld old new))"
  using assms by (simp add: set_makeUpdates distinct_Addr_makeUpdates)

theorem makeUpdates_inputs_as_sets_witness:
  "set [''b'', ''a'', ''b''] = set [''a'', ''b''] \<and>
   set [''c'', ''b'', ''c'', ''c''] = set [''b'', ''c''] \<and>
   set (makeUpdates [2, 0] [1] [''b'', ''a'', ''b''] [''c'', ''b'', ''c'', ''c'']) =
     set (makeUpdates [] [] [''a'', ''b''] [''b'', ''c'']) \<and>
   distinct (map Addr (makeUpdates [] [] [''a'', ''b''] [''b'', ''c'']))"
proof -
  have a: "set [''b'', ''a'', ''b''] = set [''a'', ''b'']" by auto
  have b: "set [''c'', ''b'', ''c'', ''c''] = set [''b'', ''c'']" by auto
  show ?thesis
    using a b makeUpdates_inputs_as_sets [OF a b, of "[2, 0]" "[1]" "[]" "[]"] by blast
qed

text \<open>
  Claim C5. Whenever \<^verbatim>\<open>Next\<close> returns, its error is nil: for a single call on
  any resolver, and for every value returned by a call of \<^verbatim>\<open>Next\<close> in any run
  of the system from any state.
\<close>

theorem Next_error_nil:
  "(case Next r of NextReturned updates err r' \<Rightarrow> err = None | NextBlocked \<Rightarrow> True) \<and>
   (\<forall>x \<in> set (next_returns acts s). snd x = None)"
  by (auto simp: next_returns_err split: next_result.splits dest: Next_err)

theorem Next_error_nil_witness:
  "(case Next ((init_resolver (Client ''consul:8500'') ''api'' [])
                 \<lparr>chanUpdates := \<lparr>buf = [[Update Add ''10.0.0.1:80'']], cap = 1, closed = False\<rparr>\<rparr>) of
      NextReturned updates err r' \<Rightarrow> updates = [Update Add ''10.0.0.1:80''] \<and> err = None
    | NextBlocked \<Rightarrow> False) \<and>
   next_returns [CallNext, CallClose, CallNext]
     (start_system
        ((init_resolver (Client ''consul:8500'') ''api'' [])
           \<lparr>chanUpdates := \<lparr>buf = [[Update Add ''10.0.0.1:80'']], cap = 1, closed = False\<rparr>\<rparr>)
        [''10.0.0.1:80''] 7 []) =
     [([Update Add ''10.0.0.1:80''], None), ([], None)]"
  using Next_error_nil
    [of "(init_resolver (Client ''consul:8500'') ''api'' [])
           \<lparr>chanUpdates := \<lparr>buf = [[Update Add ''10.0.0.1:80'']], cap = 1, closed = False\<rparr>\<rparr>"
        "[CallNext, CallClose, CallNext]"
        "start_system
           ((init_resolver (Client ''consul:8500'') ''api'' [])
              \<lparr>chanUpdates := \<lparr>buf = [[Update Add ''10.0.0.1:80'']], cap = 1, closed = False\<rparr>\<rparr>)
           [''10.0.0.1:80''] 7 []"]
  by (simp add: run_defs)

text \<open>
  Claim C7. In every state the system reaches from the constructor, a call of
  \<^verbatim>\<open>Close\<close> does not panic, leaves both channels closed and keeps what is
  buffered, and a further call returns the resolver as it is.
\<close>

theorem Close_idempotent:
  assumes "NewConsulResolver cl svc opts consul chNew chOld = Constructed s0 err"
  shows "\<exists>r1. Close (res (exec acts s0)) = Inr r1 \<and>
              closed (chanQuit r1) \<and> closed (chanUpdates r1) \<and>
              buf (chanUpdates r1) = buf (chanUpdates (res (exec acts s0))) \<and>
              Close r1 = Inr r1"
proof -
  have "chans_inv (exec acts s0)"
    using constructed_inv [OF assms] by (simp add: exec_chans_inv)
  then show ?thesis
    by (intro Close_twice) (simp_all add: chans_inv_def)
qed

theorem Close_idempotent_witness:
  "\<exists>r1. Close (res (exec [PollerStep registry_X [] [], CallNext]
              (start_system
                ((init_resolver (Client ''consul:8500'') ''api'' [])
                   \<lparr>chanUpdates :=
                      \<lparr>buf = [[Update Add ''10.0.0.1:80'']], cap = 1, closed = False\<rparr>\<rparr>)
                [''10.0.0.1:80''] 7 []))) = Inr r1 \<and>
        closed (chanQuit r1) \<and> closed (chanUpdates r1) \<and> buf (chanUpdates r1) = [] \<and>
        Close r1 = Inr r1"
  using Close_idempotent [OF constructed_X, of "[PollerStep registry_X [] [], CallNext]"]
  by (simp add: run_defs)

text \<open>
  Claim C10. In a run from the constructor in which \<^verbatim>\<open>Close\<close> has been called,
  once the channel of updates holds no batch, \<^verbatim>\<open>Next\<close> returns at once with the
  nil batch and a nil error and leaves the resolver as it is, so every later call
  does the same.
\<close>

theorem Next_after_Close:
  assumes "NewConsulResolver cl svc opts consul chNew chOld = Constructed s0 err"
    and "CallClose \<in> set acts"
    and "buf (chanUpdates (res (exec acts s0))) = []"
  shows "Next (res (exec acts s0)) = NextReturned [] None (res (exec acts s0))"
proof -
  have "chans_inv s0" using constructed_inv [OF assms(1)] by simp
  then have "closed (chanUpdates (res (exec acts s0)))"
    using assms(2) by (rule closed_after_Close)
  then show ?thesis using assms(3) by (rule Next_closed_empty)
qed

theorem Next_after_Close_witness:
  "Next (res (exec [CallClose, CallNext]
           (start_system
              ((init_resolver (Client ''consul:8500'') ''api'' [])
                 \<lparr>chanUpdates :=
                    \<lparr>buf = [[Update Add ''10.0.0.1:80'']], cap = 1, closed = False\<rparr>\<rparr>)
              [''10.0.0.1:80''] 7 []))) =
   NextReturned [] None
     ((init_resolver (Client ''consul:8500'') ''api'' [])
        \<lparr>chanQuit := \<lparr>buf = [], cap = 0, closed = True\<rparr>,
         chanUpdates := \<lparr>buf = [], cap = 1, closed = True\<rparr>\<rparr>)"
proof -
  let ?s0 = "start_system
              ((init_resolver (Client ''consul:8500'') ''api'' [])
                 \<lparr>chanUpdates :=
                    \<lparr>buf = [[Update Add ''10.0.0.1:80'']], cap = 1, closed = False\<rparr>\<rparr>)
              [''10.0.0.1:80''] 7 []"
  have c: "CallClose \<in> set [CallClose, CallNext]" by simp
  have d: "buf (chanUpdates (res (exec [CallClose, CallNext] ?s0))) = []"
    by (simp add: run_defs)
  have e: "res (exec [CallClose, CallNext] ?s0) =
     (init_resolver (Client ''consul:8500'') ''api'' [])
        \<lparr>chanQuit := \<lparr>buf = [], cap = 0, closed = True\<rparr>,
         chanUpdates := \<lparr>buf = [], cap = 1, closed = True\<rparr>\<rparr>"
    by (simp add: run_defs)
  from Next_after_Close [OF constructed_X c d] show ?thesis
    unfolding e .
qed



text \<open>
  Claim C4. If the registry answers the first query with a non-empty list of
  service entries, then after the constructor, whatever the poller and \<^verbatim>\<open>Close\<close>
  do in between, the first call of \<^verbatim>\<open>Next\<close> returns with a nil error a batch
  without repetition whose events are exactly an \<open>Add\<close> for each address of
  the entries.
\<close>

theorem first_Next_initial_membership:
  assumes "consul \<lparr>q_service = svc, q_tag = tag (init_resolver cl svc opts),
                   q_passingOnly = True, q_WaitIndex = 0\<rparr> = HealthOk services index"
    and "services \<noteq> []"
    and "NewConsulResolver cl svc opts consul chNew chOld = Constructed s0 err"
    and "CallNext \<notin> set acts"
  shows "\<exists>B r'. Next (res (exec acts s0)) = NextReturned B None r' \<and>
                distinct B \<and> set B = Update Add ` instance_addr ` set services"
proof -
  let ?inst = "map instance_addr services"
  let ?B = "makeUpdates chNew chOld [] ?inst"
  have g: "getInstances (init_resolver cl svc opts) consul 0 = (?inst, index, None)"
    using assms(1) by (intro getInstances_ok) simp
  have ne: "?inst \<noteq> []" using assms(2) by simp
  have s0: "buf (chanUpdates (res s0)) = [?B] \<and> cap (chanUpdates (res s0)) = 1"
    using assms(3) ne unfolding NewConsulResolver_eq [OF g]
    by (auto simp: start_system_def)
  then have "buf (chanUpdates (res (exec acts s0))) = [?B]"
    using assms(4) by (simp add: exec_keeps_full)
  then have "Next (res (exec acts s0)) =
      NextReturned ?B None
        ((res (exec acts s0))\<lparr>chanUpdates := (chanUpdates (res (exec acts s0)))\<lparr>buf := []\<rparr>\<rparr>)"
    by (rule Next_head)
  moreover have "distinct ?B" by (rule distinct_makeUpdates)
  moreover have "set ?B = Update Add ` instance_addr ` set services"
    by (simp add: makeUpdates_nil_old)
  ultimately show ?thesis by blast
qed

theorem first_Next_initial_membership_witness:
  "\<exists>B r'. Next (res (exec [PollerStep registry_X [] [], PollerStep registry_X [] [],
                            PollerStep registry_X [] [], CallClose]
             (start_system
               ((init_resolver (Client ''consul:8500'') ''api'' [WithTag ''v1''])
                  \<lparr>chanUpdates :=
                     \<lparr>buf = [[Update Add ''10.0.0.2:8080'', Update Add ''10.0.0.1:80'']],
                      cap = 1, closed = False\<rparr>\<rparr>)
               [''10.0.0.1:80'', ''10.0.0.2:8080''] 9 []))) = NextReturned B None r' \<and>
          distinct B \<and> set B = {Update Add ''10.0.0.1:80'', Update Add ''10.0.0.2:8080''}"
proof -
  have q: "registry_XY \<lparr>q_service = ''api'',
             q_tag = tag (init_resolver (Client ''consul:8500'') ''api'' [WithTag ''v1'']),
             q_passingOnly = True, q_WaitIndex = 0\<rparr> =
           HealthOk [\<lparr>Service_Address = ''10.0.0.1'', Node_Address = ''node1'',
                       Service_Port = 80\<rparr>,
                     \<lparr>Service_Address = [], Node_Address = ''10.0.0.2'',
                       Service_Port = 8080\<rparr>] 9"
    by (simp add: registry_XY_def)
  have ne: "[\<lparr>Service_Address = ''10.0.0.1'', Node_Address = ''node1'', Service_Port = 80\<rparr>,
             \<lparr>Service_Address = [], Node_Address = ''10.0.0.2'', Service_Port = 8080\<rparr>] \<noteq> []"
    by simp
  have n: "CallNext \<notin> set [PollerStep registry_X [] [], PollerStep registry_X [] [],
                            PollerStep registry_X [] [], CallClose]"
    by simp
  from first_Next_initial_membership [OF q ne constructed_XY n] show ?thesis
    by (simp add: instance_addr_def JoinHostPort_def Itoa_def)
qed

text \<open>
  Claim C9. In every run from the constructor, the non-nil batches returned by
  the calls of \<^verbatim>\<open>Next\<close>, followed by what is left in the channel, are the
  batches that were in the channel at the start followed by the batches the
  poller published, in the same order, each once and whole. (A call of \<^verbatim>\<open>Next\<close>
  returns the nil batch only on the closed and empty channel.)
\<close>

theorem updates_fifo:
  assumes "NewConsulResolver cl svc opts consul chNew chOld = Constructed s0 err"
  shows "filter (\<lambda>b. b \<noteq> []) (map fst (next_returns acts s0)) @
           buf (chanUpdates (res (exec acts s0))) =
         buf (chanUpdates (res s0)) @ published acts s0"
  using constructed_inv [OF assms] by (simp add: exec_fifo)

theorem updates_fifo_witness:
  "next_returns
     [PollerStep registry_X [] [], PollerStep registry_X [] [], PollerStep registry_X [] [],
      PollerStep registry_XY [] [], PollerStep registry_XY [] [], PollerStep registry_XY [] [],
      CallNext, PollerStep registry_XY [] [], CallNext]
     (start_system (init_resolver (Client ''consul:8500'') ''api'' []) [] 1 []) =
     [([Update Add ''10.0.0.1:80''], None), ([Update Add ''10.0.0.2:8080''], None)] \<and>
   published
     [PollerStep registry_X [] [], PollerStep registry_X [] [], PollerStep registry_X [] [],
      PollerStep registry_XY [] [], PollerStep registry_XY [] [], PollerStep registry_XY [] [],
      CallNext, PollerStep registry_XY [] [], CallNext]
     (start_system (init_resolver (Client ''consul:8500'') ''api'' []) [] 1 []) =
     [[Update Add ''10.0.0.1:80''], [Update Add ''10.0.0.2:8080'']] \<and>
   published
     [PollerStep registry_X [] [], PollerStep registry_X [] [], PollerStep registry_X [] [],
      PollerStep registry_XY [] [], PollerStep registry_XY [] [], PollerStep registry_XY [] []]
     (start_system (init_resolver (Client ''consul:8500'') ''api'' []) [] 1 []) =
     [[Update Add ''10.0.0.1:80'']]"
proof -
  let ?s0 = "start_system (init_resolver (Client ''consul:8500'') ''api'' []) [] 1 []"
  let ?acts = "[PollerStep registry_X [] [], PollerStep registry_X [] [],
      PollerStep registry_X [] [],
      PollerStep registry_XY [] [], PollerStep registry_XY [] [], PollerStep registry_XY [] [],
      CallNext, PollerStep registry_XY [] [], CallNext]"
  have p: "published ?acts ?s0 = [[Update Add ''10.0.0.1:80''], [Update Add ''10.0.0.2:8080'']]"
    by (simp add: run_defs example_defs)
  have b: "buf (chanUpdates (res (exec ?acts ?s0))) = []"
    by (simp add: run_defs example_defs)
  have b0: "buf (chanUpdates (res ?s0)) = []"
    by (simp add: run_defs)
  have f: "filter (\<lambda>b. b \<noteq> []) (map fst (next_returns ?acts ?s0)) =
        [[Update Add ''10.0.0.1:80''], [Update Add ''10.0.0.2:8080'']]"
    using updates_fifo [OF constructed_none, of ?acts] unfolding p b b0 by simp
  have "next_returns ?acts ?s0 =
      [([Update Add ''10.0.0.1:80''], None), ([Update Add ''10.0.0.2:8080''], None)]"
    by (simp add: run_defs example_defs)
  moreover have "published (take 6 ?acts) ?s0 = [[Update Add ''10.0.0.1:80'']]"
    by (simp add: run_defs example_defs)
  ultimately show ?thesis using p f by simp
qed

text \<open>
  Claim C3. From a reachable state in which the poller is at the top of its loop
  or inside the fetch, any number of poller steps whose fetches all fail leave
  \<^verbatim>\<open>lastIndex\<close>, \<^verbatim>\<open>oldInstances\<close> and the resolver with its channels as they
  were and publish no batch; the poller is again at the top of the loop or inside
  the fetch, so the next attempt sends the same query.
\<close>

theorem failed_polls_keep_state:
  assumes "NewConsulResolver cl svc opts consul chNew chOld = Constructed s0 err"
    and "s = exec pre s0"
    and "pc s = AtSelect \<or> pc s = Fetching"
    and "\<forall>a \<in> set acts. poll_fails (res s) (lastIndex s) a"
  shows "lastIndex (exec acts s) = lastIndex s \<and>
         oldInstances (exec acts s) = oldInstances s \<and>
         res (exec acts s) = res s \<and>
         published acts s = [] \<and>
         (pc (exec acts s) = AtSelect \<or> pc (exec acts s) = Fetching)"
proof -
  have "chans_inv s"
    using constructed_inv [OF assms(1)] assms(2) by (simp add: exec_chans_inv)
  then have "buf (chanQuit (res s)) = []" by (simp add: chans_inv_def)
  from exec_failed_polls [OF this assms(3,4)] show ?thesis by simp
qed

theorem failed_polls_keep_state_witness:
  "lastIndex (exec [PollerStep registry_down [] [], PollerStep registry_down [] [],
                    PollerStep registry_down [] [], PollerStep registry_down [] []]
       (exec [PollerStep registry_X [] []]
         (start_system
           ((init_resolver (Client ''consul:8500'') ''api'' [])
              \<lparr>chanUpdates :=
                 \<lparr>buf = [[Update Add ''10.0.0.1:80'']], cap = 1, closed = False\<rparr>\<rparr>)
           [''10.0.0.1:80''] 7 []))) = 7 \<and>
   oldInstances (exec [PollerStep registry_down [] [], PollerStep registry_down [] [],
                    PollerStep registry_down [] [], PollerStep registry_down [] []]
       (exec [PollerStep registry_X [] []]
         (start_system
           ((init_resolver (Client ''consul:8500'') ''api'' [])
              \<lparr>chanUpdates :=
                 \<lparr>buf = [[Update Add ''10.0.0.1:80'']], cap = 1, closed = False\<rparr>\<rparr>)
           [''10.0.0.1:80''] 7 []))) = [''10.0.0.1:80''] \<and>
   published [PollerStep registry_down [] [], PollerStep registry_down [] [],
                    PollerStep registry_down [] [], PollerStep registry_down [] []]
       (exec [PollerStep registry_X [] []]
         (start_system
           ((init_resolver (Client ''consul:8500'') ''api'' [])
              \<lparr>chanUpdates :=
                 \<lparr>buf = [[Update Add ''10.0.0.1:80'']], cap = 1, closed = False\<rparr>\<rparr>)
           [''10.0.0.1:80''] 7 [])) = [] \<and>
   length (logged (exec [PollerStep registry_down [] [], PollerStep registry_down [] [],
                    PollerStep registry_down [] [], PollerStep registry_down [] []]
       (exec [PollerStep registry_X [] []]
         (start_system
           ((init_resolver (Client ''consul:8500'') ''api'' [])
              \<lparr>chanUpdates :=
                 \<lparr>buf = [[Update Add ''10.0.0.1:80'']], cap = 1, closed = False\<rparr>\<rparr>)
           [''10.0.0.1:80''] 7 [])))) = 2"
proof -
  let ?s0 = "start_system
           ((init_resolver (Client ''consul:8500'') ''api'' [])
              \<lparr>chanUpdates :=
                 \<lparr>buf = [[Update Add ''10.0.0.1:80'']], cap = 1, closed = False\<rparr>\<rparr>)
           [''10.0.0.1:80''] 7 []"
  let ?s = "exec [PollerStep registry_X [] []] ?s0"
  let ?acts = "[PollerStep registry_down [] [], PollerStep registry_down [] [],
                PollerStep registry_down [] [], PollerStep registry_down [] []]"
  have pc: "pc ?s = AtSelect \<or> pc ?s = Fetching"
    by (simp add: run_defs)
  have li: "lastIndex ?s = 7" and oi: "oldInstances ?s = [''10.0.0.1:80'']"
    by (simp_all add: run_defs)
  have fails: "\<forall>a \<in> set ?acts. poll_fails (res ?s) (lastIndex ?s) a"
    by (simp add: poll_fails_def getInstances_def registry_down_def)
  have lg: "length (logged (exec ?acts ?s)) = 2"
    by (simp add: run_defs example_defs)
  from failed_polls_keep_state [OF constructed_X refl pc fails] li oi lg
  show ?thesis by simp
qed

text \<open>
  Claim C2. The loop of \<^verbatim>\<open>backgroundUpdater\<close> is meant to end once \<^verbatim>\<open>chanQuit\<close>
  is closed, but the \<^verbatim>\<open>break\<close> in the case \<^verbatim>\<open><-r.chanQuit\<close> ends the \<^verbatim>\<open>select\<close>
  only. Here the resolver is built on an empty registry and closed; the poller
  then finds \<^verbatim>\<open>chanQuit\<close> closed and stays at the top of the loop, and three
  steps of the poller, whatever the registry would answer, leave the whole system
  as it was right after \<^verbatim>\<open>Close\<close>: the goroutine spins and never returns.
\<close>

theorem backgroundUpdater_spins_after_Close:
  "NewConsulResolver (Client ''consul:8500'') ''api'' [] registry_none [] [] =
     Constructed (start_system (init_resolver (Client ''consul:8500'') ''api'' []) [] 1 []) None \<and>
   closed (chanQuit (res (exec [CallClose]
     (start_system (init_resolver (Client ''consul:8500'') ''api'' []) [] 1 [])))) \<and>
   pc (exec [CallClose, PollerStep registry_none [] []]
     (start_system (init_resolver (Client ''consul:8500'') ''api'' []) [] 1 [])) = AtSelect \<and>
   exec [CallClose, PollerStep registry_none [] [], PollerStep registry_X [] [],
         PollerStep registry_down [] []]
     (start_system (init_resolver (Client ''consul:8500'') ''api'' []) [] 1 []) =
   exec [CallClose]
     (start_system (init_resolver (Client ''consul:8500'') ''api'' []) [] 1 [])"
  by (simp add: constructed_none) (simp add: run_defs)

end
